theory Spec2Isabelle
  imports Main "HOL-Library.Word"
begin

unbundle bit_operations_syntax

section \<open>XMODEM: protocol constants\<close>

text \<open>
  A Python \<open>bytes\<close> value is a list of bytes; a byte is an 8-bit word. The protocol
  constants of \<open>xmodem.py\<close> are \<open>bytes\<close> objects of length one, and the code compares
  whole \<open>bytes\<close> objects (\<open>response == ACK\<close>), so they are one-element lists here.
  Python integers are unbounded: they are \<open>int\<close>.
\<close>

type_synonym byte = "8 word"
type_synonym bytes = "byte list"

definition SOH :: bytes where "SOH = [0x01]"
definition EOT :: bytes where "EOT = [0x04]"
definition ACK :: bytes where "ACK = [0x06]"
definition NAK :: bytes where "NAK = [0x15]"
definition CAN :: bytes where "CAN = [0x18]"
definition C :: bytes where "C = [0x43]"
definition PADDING :: bytes where "PADDING = [0x1a]"

definition BLOCK_SIZE :: nat where "BLOCK_SIZE = 128"
definition RETRY_LIMIT :: int where "RETRY_LIMIT = 10"
definition RECV_TIMEOUT :: int where "RECV_TIMEOUT = 10"

datatype ChecksumType = BASIC | CRC

section \<open>Integrity codecs\<close>

text \<open>
  \<open>calculate_checksum(data)\<close> is \<open>sum(data) & 0xFF\<close>: iterating over \<open>bytes\<close> yields
  the integers 0..255, summed as unbounded integers, then masked.
\<close>

definition calculate_checksum :: "bytes \<Rightarrow> int" where
  "calculate_checksum data = sum_list (map uint data) AND 0xFF"

text \<open>
  \<open>calculate_crc\<close>: the register \<open>crc\<close> is an unbounded Python integer. Inside the
  eight shift steps it is not masked (it may grow beyond 16 bits), the test is on bit 15
  only (\<open>crc & 0x8000\<close>), and the mask \<open>& 0xFFFF\<close> is applied once per input byte.
\<close>

definition crc_shift :: "int \<Rightarrow> int" where
  "crc_shift crc = (if crc AND 0x8000 \<noteq> 0 then push_bit 1 crc XOR 0x1021 else push_bit 1 crc)"

definition crc_update :: "int \<Rightarrow> int \<Rightarrow> int" where
  "crc_update crc byte = ((crc_shift ^^ 8) (crc XOR push_bit 8 byte)) AND 0xFFFF"

definition calculate_crc :: "bytes \<Rightarrow> int" where
  "calculate_crc data = foldl crc_update 0 (map uint data)"

text \<open>
  The CRC as the specification words it, on a genuine 16-bit register: seed 0; for each
  byte XOR \<open>b << 8\<close> into the register, then eight times shift left by one bit and XOR
  with 0x1021 when the bit shifted out (the pre-shift high bit) was set.
\<close>

definition crc16_step :: "16 word \<Rightarrow> 16 word" where
  "crc16_step r = (if bit r 15 then push_bit 1 r XOR 0x1021 else push_bit 1 r)"

definition crc16_byte :: "16 word \<Rightarrow> byte \<Rightarrow> 16 word" where
  "crc16_byte r b = (crc16_step ^^ 8) (r XOR push_bit 8 (ucast b))"

definition crc_xmodem :: "bytes \<Rightarrow> 16 word" where
  "crc_xmodem data = foldl crc16_byte 0 data"

section \<open>Padding and block splitting (sender) and padding removal (receiver)\<close>

text \<open>
  \<open>padding_size = BLOCK_SIZE - (len(file_content) % BLOCK_SIZE)\<close> lies in 1..128, so
  the subtraction on \<open>nat\<close> is the Python one. \<open>PADDING * padding_size\<close> repeats the
  one-byte object.
\<close>

definition pad_content :: "bytes \<Rightarrow> bytes" where
  "pad_content file_content =
     (let padding_size = BLOCK_SIZE - (length file_content mod BLOCK_SIZE)
      in if padding_size < BLOCK_SIZE
         then file_content @ concat (replicate padding_size PADDING)
         else file_content)"

text \<open>\<open>range(0, n, step)\<close> for a positive step, and the slices \<open>file_content[i:i+BLOCK_SIZE]\<close>.\<close>

definition range_step :: "nat \<Rightarrow> nat \<Rightarrow> nat list" where
  "range_step n step = map (\<lambda>k. k * step) [0 ..< (n + step - 1) div step]"

definition split_blocks :: "bytes \<Rightarrow> bytes list" where
  "split_blocks file_content =
     map (\<lambda>i. take BLOCK_SIZE (drop i file_content))
         (range_step (length file_content) BLOCK_SIZE)"

text \<open>
  The receiver's post-processing loop
  \<open>while received_data and received_data[-1] == PADDING[0]: received_data.pop()\<close>.
\<close>

function strip_padding :: "bytes \<Rightarrow> bytes" where
  "strip_padding received_data =
     (if received_data \<noteq> [] \<and> last received_data = hd PADDING
      then strip_padding (butlast received_data)
      else received_data)"
  by pat_completeness auto
termination
  by (relation "measure length") auto

declare strip_padding.simps [simp del]

section \<open>The serial port\<close>

text \<open>
  The port is the transport of both state machines. Its receive side is the sequence of
  events the line will deliver: \<open>Some b\<close> is a byte, \<open>None\<close> is a silence that lasts
  one read timeout; a line whose events are used up stays silent. \<open>ser.read(n)\<close>
  returns up to \<open>n\<close> bytes: it stops early, with what it has, at a silence. Its send side
  is the sequence of bytes written so far (\<open>ser.flush()\<close> changes nothing of it).
  \<open>time.time()\<close> is the field \<open>now\<close>, in seconds: a read that times out takes the port's
  timeout, which \<open>configure_serial_port\<close> sets to one second, \<open>time.sleep(d)\<close> takes
  \<open>d\<close> seconds, and everything else takes no time.
\<close>

record port =
  rx :: "byte option list"
  tx :: bytes
  now :: int

definition PORT_TIMEOUT :: int where "PORT_TIMEOUT = 1"

fun recv_bytes :: "nat \<Rightarrow> byte option list \<Rightarrow> bytes \<times> byte option list" where
  "recv_bytes 0 evs = ([], evs)"
| "recv_bytes (Suc n) [] = ([], [])"
| "recv_bytes (Suc n) (None # evs) = ([], evs)"
| "recv_bytes (Suc n) (Some b # evs) =
     (let (bs, rest) = recv_bytes n evs in (b # bs, rest))"

definition ser_read :: "nat \<Rightarrow> port \<Rightarrow> bytes \<times> port" where
  "ser_read n ser =
     (let (data, rest) = recv_bytes n (rx ser)
      in (data, ser\<lparr>rx := rest,
                     now := (if length data < n then now ser + PORT_TIMEOUT else now ser)\<rparr>))"

definition ser_write :: "bytes \<Rightarrow> port \<Rightarrow> port" where
  "ser_write data ser = ser\<lparr>tx := tx ser @ data\<rparr>"

definition sleep :: "int \<Rightarrow> port \<Rightarrow> port" where
  "sleep d ser = ser\<lparr>now := now ser + d\<rparr>"

text \<open>\<open>ord(x)\<close> of a one-byte \<open>bytes\<close> object; \<open>bytes([k])\<close> for \<open>k\<close> in 0..255.\<close>

definition ord :: "bytes \<Rightarrow> int" where
  "ord x = uint (hd x)"

definition byte_of :: "int \<Rightarrow> bytes" where
  "byte_of k = [word_of_int k]"

text \<open>
  What the next \<open>n\<close> one-byte reads meet on a line: its events, and silences once they
  are used up.
\<close>

fun line_events :: "nat \<Rightarrow> byte option list \<Rightarrow> byte option list" where
  "line_events 0 evs = []"
| "line_events (Suc n) [] = None # line_events n []"
| "line_events (Suc n) (ev # evs) = ev # line_events n evs"

section \<open>The sender: \<open>send_file\<close>\<close>

text \<open>
  The handshake wait: \<open>while initiate_char is None and time.time() - start_time <
  RECV_TIMEOUT\<close>, reading one byte at a time and leaving at the first byte that arrives.
  The result is \<open>None\<close> when the window closes with nothing read.
\<close>

function wait_initiate :: "int \<Rightarrow> port \<Rightarrow> bytes option \<times> port" where
  "wait_initiate start_time ser =
     (if now ser - start_time < RECV_TIMEOUT
      then (case ser_read 1 ser of (data, ser') \<Rightarrow>
              if data \<noteq> [] then (Some data, ser') else wait_initiate start_time ser')
      else (None, ser))"
  by pat_completeness auto
termination
  by (relation "measure (\<lambda>(start_time, ser). nat (start_time + RECV_TIMEOUT - now ser))")
     (auto simp: ser_read_def PORT_TIMEOUT_def split: prod.splits)

declare wait_initiate.simps [simp del]

text \<open>The frame built at the top of every attempt (lines 106 to 117).\<close>

definition build_packet :: "bool \<Rightarrow> int \<Rightarrow> bytes \<Rightarrow> bytes" where
  "build_packet use_crc block_number block =
     SOH @ byte_of (block_number AND 0xFF) @ byte_of (255 - (block_number AND 0xFF)) @ block
     @ (if use_crc
        then (let crc_value = calculate_crc block
              in byte_of (drop_bit 8 crc_value AND 0xFF) @ byte_of (crc_value AND 0xFF))
        else byte_of (calculate_checksum block))"

text \<open>
  How a loop of the source ends: it falls out of the loop (by \<open>break\<close> or by its
  condition) with its loop variable, or the function returns from inside it.
\<close>

datatype 'a loop_end = Exit 'a | Returned bool

text \<open>The retry loop of one block, \<open>while retries < RETRY_LIMIT\<close> (lines 104 to 136).\<close>

function send_attempts :: "bool \<Rightarrow> int \<Rightarrow> bytes \<Rightarrow> int \<Rightarrow> port \<Rightarrow> int loop_end \<times> port" where
  "send_attempts use_crc block_number block retries ser =
     (if retries < RETRY_LIMIT
      then (let packet = build_packet use_crc block_number block;
                ser1 = ser_write packet ser
            in case ser_read 1 ser1 of (response, ser2) \<Rightarrow>
                 if response = ACK then (Exit retries, ser2)
                 else if response = NAK \<or> response = C
                 then send_attempts use_crc block_number block (retries + 1) ser2
                 else if response = CAN then (Returned False, ser2)
                 else send_attempts use_crc block_number block (retries + 1) ser2)
      else (Exit retries, ser))"
  by pat_completeness auto
termination
  by (relation "measure (\<lambda>(use_crc, block_number, block, retries, ser). nat (RETRY_LIMIT - retries))")
     auto

declare send_attempts.simps [simp del]

text \<open>
  \<open>for block in blocks\<close> with the block number carried along: after the retry loop the
  sender cancels when the retries are used up, and otherwise steps the block number.
  \<open>None\<close> means that the loop ran to its end without returning.
\<close>

fun send_blocks :: "bool \<Rightarrow> int \<Rightarrow> bytes list \<Rightarrow> port \<Rightarrow> bool option \<times> port" where
  "send_blocks use_crc block_number [] ser = (None, ser)"
| "send_blocks use_crc block_number (block # blocks) ser =
     (case send_attempts use_crc block_number block 0 ser of
        (Returned r, ser') \<Rightarrow> (Some r, ser')
      | (Exit retries, ser') \<Rightarrow>
          if retries \<ge> RETRY_LIMIT then (Some False, ser_write (CAN @ CAN) ser')
          else send_blocks use_crc ((block_number + 1) mod 256) blocks ser')"

text \<open>The EOT loop (lines 147 to 158).\<close>

function send_eot :: "int \<Rightarrow> port \<Rightarrow> bool \<times> port" where
  "send_eot retries ser =
     (if retries < RETRY_LIMIT
      then (case ser_read 1 (ser_write EOT ser) of (response, ser') \<Rightarrow>
              if response = ACK then (True, ser')
              else send_eot (retries + 1) (sleep 1 ser'))
      else (False, ser))"
  by pat_completeness auto
termination
  by (relation "measure (\<lambda>(retries, ser). nat (RETRY_LIMIT - retries))") auto

declare send_eot.simps [simp del]

text \<open>
  \<open>send_file\<close>. The file is what \<open>open(filename, 'rb').read()\<close> gives: \<open>None\<close> when
  opening or reading raises (\<open>FileNotFoundError\<close>, \<open>IOError\<close>).
\<close>

definition send_file :: "port \<Rightarrow> bytes option \<Rightarrow> ChecksumType \<Rightarrow> bool \<times> port" where
  "send_file ser file checksum_type =
     (case file of
        None \<Rightarrow> (False, ser)
      | Some content \<Rightarrow>
          (let file_content = pad_content content;
               blocks = split_blocks file_content
           in case wait_initiate (now ser) ser of
                (None, ser1) \<Rightarrow> (False, ser1)
              | (Some initiate_char, ser1) \<Rightarrow>
                  (let use_crc = (initiate_char = C \<and> checksum_type = CRC)
                   in case send_blocks use_crc 1 blocks ser1 of
                        (Some r, ser2) \<Rightarrow> (r, ser2)
                      | (None, ser2) \<Rightarrow> send_eot 0 ser2)))"

section \<open>The receiver: \<open>receive_file\<close>\<close>

text \<open>The handshake loop (lines 165 to 185); each failed attempt sleeps one second.\<close>

function recv_handshake :: "bool \<Rightarrow> int \<Rightarrow> port \<Rightarrow> int loop_end \<times> port" where
  "recv_handshake use_crc retries ser =
     (if retries < RETRY_LIMIT
      then (let ser1 = (if use_crc then ser_write C ser else ser_write NAK ser)
            in case ser_read 1 ser1 of (data, ser2) \<Rightarrow>
                 if data = SOH then (Exit retries, ser2)
                 else if data = CAN then (Returned False, ser2)
                 else recv_handshake use_crc (retries + 1) (sleep 1 ser2))
      else (Exit retries, ser))"
  by pat_completeness auto
termination
  by (relation "measure (\<lambda>(use_crc, retries, ser). nat (RETRY_LIMIT - retries))") auto

declare recv_handshake.simps [simp del]

text \<open>The variables of the \<open>while True\<close> loop, with the port.\<close>

record receiver =
  link :: port
  received_data :: bytes
  expected_block :: int

text \<open>
  Reading and verifying the trailer (lines 218 to 241). The result is \<open>False\<close> where
  the source writes NAK and takes \<open>continue\<close>.
\<close>

definition read_trailer :: "bool \<Rightarrow> bytes \<Rightarrow> port \<Rightarrow> bool \<times> port" where
  "read_trailer use_crc data_block ser =
     (if use_crc
      then (case ser_read 2 ser of (crc_bytes, ser1) \<Rightarrow>
              if length crc_bytes \<noteq> 2 then (False, ser_write NAK ser1)
              else (let received_crc = push_bit 8 (uint (crc_bytes ! 0)) OR uint (crc_bytes ! 1);
                        calculated_crc = calculate_crc data_block
                    in if received_crc \<noteq> calculated_crc then (False, ser_write NAK ser1)
                       else (True, ser1)))
      else (case ser_read 1 ser of (checksum, ser1) \<Rightarrow>
              if checksum = [] then (False, ser_write NAK ser1)
              else (let calculated_checksum = calculate_checksum data_block
                    in if ord checksum \<noteq> calculated_checksum then (False, ser_write NAK ser1)
                       else (True, ser1))))"

text \<open>
  The sequence check (lines 244 to 256). The result is \<open>False\<close> where the source
  returns \<open>False\<close> from \<open>receive_file\<close>.
\<close>

definition sequence_check :: "bytes \<Rightarrow> bytes \<Rightarrow> receiver \<Rightarrow> bool \<times> receiver" where
  "sequence_check block_num data_block s =
     (if ord block_num = expected_block s
      then (True, s\<lparr>link := ser_write ACK (link s),
                     received_data := received_data s @ data_block,
                     expected_block := (expected_block s + 1) mod 256\<rparr>)
      else if ord block_num = (expected_block s - 1) mod 256
      then (True, s\<lparr>link := ser_write ACK (link s)\<rparr>)
      else (False, s\<lparr>link := ser_write CAN (ser_write CAN (link s))\<rparr>))"

text \<open>
  One pass through the body of the loop ends in \<open>continue\<close> (or by reaching the end of
  the body), in \<open>break\<close>, or in \<open>return False\<close>.
\<close>

datatype step = Continue receiver | Break receiver | Return_False receiver

text \<open>
  The read after a frame (lines 258 to 268). A byte that is neither EOT nor SOH matches
  no branch, and the body ends: the loop goes on as after \<open>continue\<close>.
\<close>

definition read_after_frame :: "receiver \<Rightarrow> step" where
  "read_after_frame s =
     (case ser_read 1 (link s) of (data, ser1) \<Rightarrow>
        if data = EOT then Break (s\<lparr>link := ser_write ACK ser1\<rparr>)
        else if data = SOH then Continue (s\<lparr>link := ser1\<rparr>)
        else if data = [] then Continue (s\<lparr>link := ser1\<rparr>)
        else Continue (s\<lparr>link := ser1\<rparr>))"

text \<open>
  The body of the \<open>while True\<close> loop (lines 192 to 268), in two parts: the block
  number and its complement are read and compared (lines 192 to 209), then the block, its
  trailer and the byte after the frame are read (lines 211 to 268).
\<close>

definition receive_block :: "bool \<Rightarrow> bytes \<Rightarrow> receiver \<Rightarrow> step" where
  "receive_block use_crc block_num s =
     (case ser_read BLOCK_SIZE (link s) of (data_block, ser3) \<Rightarrow>
      if length data_block \<noteq> BLOCK_SIZE then Continue (s\<lparr>link := ser_write NAK ser3\<rparr>)
      else case read_trailer use_crc data_block ser3 of
             (False, ser4) \<Rightarrow> Continue (s\<lparr>link := ser4\<rparr>)
           | (True, ser4) \<Rightarrow>
               (case sequence_check block_num data_block (s\<lparr>link := ser4\<rparr>) of
                  (False, s') \<Rightarrow> Return_False s'
                | (True, s') \<Rightarrow> read_after_frame s'))"

definition receive_frame :: "bool \<Rightarrow> receiver \<Rightarrow> step" where
  "receive_frame use_crc s =
     (case ser_read 1 (link s) of (block_num, ser1) \<Rightarrow>
      if block_num = [] then Continue (s\<lparr>link := ser_write NAK ser1\<rparr>)
      else case ser_read 1 ser1 of (block_num_complement, ser2) \<Rightarrow>
      if block_num_complement = [] then Continue (s\<lparr>link := ser_write NAK ser2\<rparr>)
      else if ord block_num + ord block_num_complement \<noteq> 255
      then Continue (s\<lparr>link := ser_write NAK ser2\<rparr>)
      else receive_block use_crc block_num (s\<lparr>link := ser2\<rparr>))"

text \<open>
  A trailer that the receiver's integrity check accepts for a block: in CRC mode two bytes,
  high byte first, that give \<open>calculate_crc\<close> of the block; in checksum mode one byte
  equal to \<open>calculate_checksum\<close> of the block (the comparisons of lines 225 to 227 and
  237 to 238).
\<close>

definition trailer_ok :: "bool \<Rightarrow> bytes \<Rightarrow> bytes \<Rightarrow> bool" where
  "trailer_ok use_crc data_block trailer =
     (if use_crc
      then length trailer = 2
           \<and> push_bit 8 (uint (trailer ! 0)) OR uint (trailer ! 1) = calculate_crc data_block
      else length trailer = 1 \<and> ord trailer = calculate_checksum data_block)"

text \<open>The variables of the loop at the end of one pass, however the pass ended.\<close>

definition state_of :: "step \<Rightarrow> receiver" where
  "state_of st = (case st of Continue s \<Rightarrow> s | Break s \<Rightarrow> s | Return_False s \<Rightarrow> s)"

text \<open>
  The \<open>while True\<close> loop. It need not end (a silent line is answered with NAK for
  ever), so it runs on fuel: \<open>None\<close> is a loop still running when the fuel is used up,
  \<open>Some (True, s)\<close> is \<open>break\<close> and \<open>Some (False, s)\<close> is \<open>return False\<close>.
\<close>

fun receive_loop :: "nat \<Rightarrow> bool \<Rightarrow> receiver \<Rightarrow> (bool \<times> receiver) option" where
  "receive_loop 0 use_crc s = None"
| "receive_loop (Suc fuel) use_crc s =
     (case receive_frame use_crc s of
        Continue s' \<Rightarrow> receive_loop fuel use_crc s'
      | Break s' \<Rightarrow> Some (True, s')
      | Return_False s' \<Rightarrow> Some (False, s'))"

text \<open>
  The output file: what it holds (\<open>None\<close> while it does not exist), whether
  \<open>open(output_filename, 'wb')\<close> succeeds and whether \<open>file.write\<close> succeeds.
  Lines 275 to 282: where \<open>open\<close> raises \<open>IOError\<close> the file is left as it was;
  once it is open in mode \<open>'wb'\<close> it is empty, and it stays empty where \<open>file.write\<close>
  raises. The result is \<open>True\<close> where the source returns \<open>True\<close>.
\<close>

record outfile =
  content :: "bytes option"
  openable :: bool
  writable :: bool

definition write_file :: "bytes \<Rightarrow> outfile \<Rightarrow> bool \<times> outfile" where
  "write_file data out =
     (if \<not> openable out then (False, out)
      else if \<not> writable out then (False, out\<lparr>content := Some []\<rparr>)
      else (True, out\<lparr>content := Some data\<rparr>))"

text \<open>The loop and what follows it (lines 191 to 282), from any state of the loop.\<close>

definition receive_frames ::
  "nat \<Rightarrow> bool \<Rightarrow> receiver \<Rightarrow> outfile \<Rightarrow> (bool \<times> port \<times> outfile) option" where
  "receive_frames fuel use_crc s out =
     (case receive_loop fuel use_crc s of
        None \<Rightarrow> None
      | Some (False, s') \<Rightarrow> Some (False, link s', out)
      | Some (True, s') \<Rightarrow>
          (case write_file (strip_padding (received_data s')) out of
             (True, out') \<Rightarrow> Some (True, link s', out')
           | (False, out') \<Rightarrow> Some (False, link s', out')))"

definition receive_file ::
  "nat \<Rightarrow> port \<Rightarrow> outfile \<Rightarrow> ChecksumType \<Rightarrow> (bool \<times> port \<times> outfile) option" where
  "receive_file fuel ser out checksum_type =
     (let use_crc = (checksum_type = CRC)
      in case recv_handshake use_crc 0 ser of
           (Returned r, ser1) \<Rightarrow> Some (r, ser1, out)
         | (Exit retries, ser1) \<Rightarrow>
             if retries \<ge> RETRY_LIMIT then Some (False, ser1, out)
             else receive_frames fuel use_crc
                    \<lparr>link = ser1, received_data = [], expected_block = 1\<rparr> out)"

section \<open>Codec properties\<close>

lemma and_FF_mod: "(k::int) AND 0xFF = k mod 256"
proof -
  have "k AND mask 8 = k mod 2 ^ 8"
    by (simp only: take_bit_eq_mask [symmetric] take_bit_eq_mod)
  then show ?thesis by (simp add: mask_eq_exp_minus_1)
qed

text \<open>
  C4. On every payload of exactly 128 bytes \<open>calculate_checksum\<close> is the arithmetic sum
  of the bytes modulo 256, and on 128 bytes of 0xFF it is 0x80.
\<close>

theorem checksum_is_sum_mod_256:
  "length P = 128 \<Longrightarrow>
     calculate_checksum P = (\<Sum>b\<leftarrow>P. uint b) mod 256
     \<and> calculate_checksum (replicate 128 0xFF) = 0x80"
proof -
  have "sum_list (map uint (replicate 128 (0xFF::byte))) = 128 * 255"
    by (simp add: sum_list_replicate)
  then have "calculate_checksum (replicate 128 0xFF) = 0x80"
    by (simp add: calculate_checksum_def and_FF_mod)
  then show ?thesis
    by (simp add: calculate_checksum_def and_FF_mod)
qed

theorem checksum_is_sum_mod_256_witness:
  "length (replicate 128 (0x01::byte)) = 128
   \<and> calculate_checksum (replicate 128 0x01) = 128"
  using checksum_is_sum_mod_256 [of "replicate 128 0x01"]
  by (simp add: sum_list_replicate)

lemma and_FFFF_uint: "(k::int) AND 0xFFFF = uint (word_of_int k :: 16 word)"
proof -
  have "k AND mask 16 = take_bit 16 k"
    by (simp only: take_bit_eq_mask)
  then show ?thesis by (simp add: mask_eq_exp_minus_1 uint_word_of_int_eq)
qed

lemma high_bit_test: "((k::int) AND 0x8000 \<noteq> 0) = bit (word_of_int k :: 16 word) 15"
proof -
  have "(k AND 2 ^ 15 = 0) = (\<not> bit k 15)"
    by (rule and_exp_eq_0_iff_not_bit)
  then show ?thesis by (simp add: bit_word_of_int_iff)
qed

text \<open>The unmasked shift step agrees with the 16-bit one on the low 16 bits.\<close>

lemma crc_shift_word: "word_of_int (crc_shift k) = crc16_step (word_of_int k)"
  by (simp add: crc_shift_def crc16_step_def high_bit_test of_int_xor_eq of_int_push_bit)

lemma crc_shift_pow_word:
  "word_of_int ((crc_shift ^^ n) k) = (crc16_step ^^ n) (word_of_int k)"
  by (induction n) (simp_all add: crc_shift_word)

lemma crc_update_word: "crc_update (uint r) (uint b) = uint (crc16_byte r b)"
  by (simp only: crc_update_def crc16_byte_def and_FFFF_uint crc_shift_pow_word
        of_int_xor_eq of_int_push_bit word_of_int_uint ucast_eq)

lemma foldl_crc_update:
  "foldl crc_update (uint r) (map uint data) = uint (foldl crc16_byte r data)"
  by (induction data arbitrary: r) (simp_all add: crc_update_word)

lemma calculate_crc_word: "calculate_crc data = uint (crc_xmodem data)"
  using foldl_crc_update [of 0 data] by (simp add: calculate_crc_def crc_xmodem_def)

lemma crc16_byte_zero: "crc16_byte 0 0 = 0"
  by (simp add: crc16_byte_def crc16_step_def eval_nat_numeral)

lemma crc_xmodem_zeros: "crc_xmodem (replicate n 0) = 0"
  unfolding crc_xmodem_def by (induction n) (simp_all add: crc16_byte_zero)

lemma calculate_crc_zeros: "calculate_crc (replicate n 0) = 0"
  by (simp add: calculate_crc_word crc_xmodem_zeros)

text \<open>
  C3. \<open>calculate_crc\<close>, which masks only once per byte, computes the CRC-CCITT/XMODEM
  of the specification (seed 0, polynomial 0x1021, on a 16-bit register) for every input,
  and it is 0x0000 on 128 bytes of 0x00.
\<close>

theorem calculate_crc_is_crc_xmodem:
  "calculate_crc data = uint (crc_xmodem data) \<and> calculate_crc (replicate 128 0x00) = 0x0000"
  by (simp add: calculate_crc_word [symmetric] calculate_crc_zeros)

section \<open>Padding properties\<close>

lemma pad_content_eq:
  "pad_content F = (if length F mod 128 \<noteq> 0 then F @ replicate (128 - length F mod 128) 0x1a else F)"
proof -
  have "concat (replicate n PADDING) = replicate n 0x1a" for n
    by (induction n) (simp_all add: PADDING_def)
  then show ?thesis
    by (simp add: pad_content_def BLOCK_SIZE_def Let_def)
qed

lemma strip_padding_keep: "F = [] \<or> last F \<noteq> 0x1a \<Longrightarrow> strip_padding F = F"
  by (subst strip_padding.simps) (auto simp: PADDING_def)

lemma strip_padding_snoc: "strip_padding (F @ [0x1a]) = strip_padding F"
  by (subst strip_padding.simps) (simp add: PADDING_def)

lemma strip_padding_replicate: "strip_padding (F @ replicate n 0x1a) = strip_padding F"
proof (induction n arbitrary: F)
  case 0
  then show ?case by simp
next
  case (Suc n)
  have "F @ replicate (Suc n) 0x1a = (F @ replicate n 0x1a) @ [0x1a]"
    by (simp add: replicate_append_same)
  then have "strip_padding (F @ replicate (Suc n) 0x1a) = strip_padding (F @ replicate n 0x1a)"
    by (simp only: strip_padding_snoc)
  then show ?case using Suc.IH by simp
qed

text \<open>
  C1. For every file \<open>F\<close> that does not end in 0x1A, the payload the sender frames is
  \<open>F\<close> followed by 128 - |F| mod 128 bytes of 0x1A when |F| is not a multiple of 128
  and \<open>F\<close> itself otherwise, and the receiver's removal of trailing 0x1A bytes gives
  \<open>F\<close> back.
\<close>

theorem padding_round_trip:
  "F = [] \<or> last F \<noteq> 0x1a \<Longrightarrow>
     pad_content F = (if length F mod 128 \<noteq> 0 then F @ replicate (128 - length F mod 128) 0x1a else F)
     \<and> strip_padding (pad_content F) = F"
  by (simp add: pad_content_eq strip_padding_replicate strip_padding_keep)

theorem padding_round_trip_witness:
  "([0x41, 0x42 :: byte] = [] \<or> last [0x41, 0x42 :: byte] \<noteq> 0x1a)
   \<and> pad_content [0x41, 0x42] = [0x41, 0x42] @ replicate 126 0x1a
   \<and> strip_padding (pad_content [0x41, 0x42]) = [0x41, 0x42]"
proof -
  have h: "[0x41, 0x42 :: byte] = [] \<or> last [0x41, 0x42 :: byte] \<noteq> 0x1a"
    by simp
  note r = padding_round_trip [OF h]
  have a: "pad_content [0x41, 0x42] = [0x41, 0x42] @ replicate 126 0x1a"
    using r [THEN conjunct1] by simp
  show ?thesis
    by (intro conjI) (rule h a r [THEN conjunct2])+
qed

section \<open>Frame header properties\<close>

lemma ser_read_byte:
  "rx ser = Some b # rest \<Longrightarrow> ser_read (Suc 0) ser = ([b], ser\<lparr>rx := rest\<rparr>)"
  by (simp add: ser_read_def)

lemma byte_sum_255: "((uint (a::byte) + uint (b::byte)) mod 256 = 255) = (uint a + uint b = 255)"
proof -
  define k where "k = uint a + uint b"
  have "uint a < 256" "uint b < 256"
    using uint_bounded [of a] uint_bounded [of b] by simp_all
  then have k: "0 \<le> k" "k < 511"
    by (simp_all add: k_def)
  have "(k mod 256 = 255) = (k = 255)"
  proof (cases "k < 256")
    case True
    then show ?thesis using k by simp
  next
    case False
    then have "(k - 256) mod 256 = k - 256"
      using k by (intro mod_pos_pos_trivial) simp_all
    then have "k mod 256 = k - 256"
      by (simp only: minus_mod_self2)
    then show ?thesis using False k by simp
  qed
  then show ?thesis by (simp add: k_def)
qed

lemma uint_byte_of: "0 \<le> k \<Longrightarrow> k \<le> 255 \<Longrightarrow> uint (word_of_int k :: byte) = k"
  by (simp add: uint_word_of_int_eq take_bit_int_eq_self)

text \<open>
  C2. For every block number \<open>N\<close> in 0..255 the frame built by \<open>send_file\<close> starts
  with SOH, \<open>N\<close> and 255 - \<open>N\<close>; and \<open>receive_file\<close>, on reading a block number
  \<open>a\<close> and a complement \<open>b\<close>, goes on to read the block exactly when
  (\<open>a\<close> + \<open>b\<close>) mod 256 = 255, and answers NAK otherwise: the unreduced test
  \<open>ord(block_num) + ord(block_num_complement) != 255\<close> accepts the same pairs.
\<close>

theorem sequence_bytes:
  "0 \<le> N \<Longrightarrow> N \<le> 255 \<Longrightarrow> rx (link s) = Some a # Some b # rest \<Longrightarrow>
     take 3 (build_packet use_crc N block) = SOH @ byte_of N @ byte_of (255 - N)
     \<and> ord (byte_of N) = N \<and> ord (byte_of (255 - N)) = 255 - N
     \<and> receive_frame use_crc s =
         (if (uint a + uint b) mod 256 = 255
          then receive_block use_crc [a] (s\<lparr>link := (link s)\<lparr>rx := rest\<rparr>\<rparr>)
          else Continue (s\<lparr>link := ser_write NAK ((link s)\<lparr>rx := rest\<rparr>)\<rparr>))"
proof -
  assume N: "0 \<le> N" "N \<le> 255" and rx: "rx (link s) = Some a # Some b # rest"
  have m: "N AND 0xFF = N"
    using N by (simp add: and_FF_mod)
  have p1: "take 3 (build_packet use_crc N block) = SOH @ byte_of N @ byte_of (255 - N)"
    by (simp add: build_packet_def m SOH_def byte_of_def)
  have p2: "ord (byte_of N) = N"
    using N by (simp add: ord_def byte_of_def uint_byte_of)
  have "0 \<le> 255 - N" "255 - N \<le> 255"
    using N by simp_all
  then have "uint (word_of_int (255 - N) :: byte) = 255 - N"
    by (rule uint_byte_of)
  then have p2b: "ord (byte_of (255 - N)) = 255 - N"
    by (simp only: ord_def byte_of_def list.sel)
  have p3: "receive_frame use_crc s =
         (if (uint a + uint b) mod 256 = 255
          then receive_block use_crc [a] (s\<lparr>link := (link s)\<lparr>rx := rest\<rparr>\<rparr>)
          else Continue (s\<lparr>link := ser_write NAK ((link s)\<lparr>rx := rest\<rparr>)\<rparr>))"
    using rx by (simp add: receive_frame_def ser_read_byte ord_def byte_sum_255)
  show ?thesis
    by (intro conjI) (rule p1 p2 p2b p3)+
qed


theorem sequence_bytes_witness:
  "(0::int) \<le> 5 \<and> (5::int) \<le> 255
   \<and> take 3 (build_packet True 5 []) = [0x01, 0x05, 0xFA]
   \<and> receive_frame True
         \<lparr>link = \<lparr>rx = [Some 0x05, Some 0xFA], tx = [], now = 0\<rparr>,
          received_data = [], expected_block = 5\<rparr>
       = receive_block True [0x05]
         \<lparr>link = \<lparr>rx = [], tx = [], now = 0\<rparr>, received_data = [], expected_block = 5\<rparr>"
  using sequence_bytes [of 5 "\<lparr>link = \<lparr>rx = [Some 0x05, Some 0xFA], tx = [], now = 0\<rparr>,
          received_data = [], expected_block = 5\<rparr>" "0x05" "0xFA" "[]" True "[]"]
  by (simp add: SOH_def byte_of_def)

section \<open>Receiver: reading a frame\<close>

lemma recv_bytes_all: "recv_bytes (length bs) (map Some bs @ rest) = (bs, rest)"
  by (induction bs) simp_all

lemma ser_read_all:
  "rx ser = map Some bs @ rest \<Longrightarrow> length bs = n \<Longrightarrow> ser_read n ser = (bs, ser\<lparr>rx := rest\<rparr>)"
  using recv_bytes_all [of bs rest] by (auto simp: ser_read_def)

lemma read_trailer_ok:
  assumes "trailer_ok use_crc data_block trailer" "rx ser = map Some trailer @ rest"
  shows "read_trailer use_crc data_block ser = (True, ser\<lparr>rx := rest\<rparr>)"
proof (cases use_crc)
  case True
  then have len: "length trailer = 2"
    and crc: "push_bit 8 (uint (trailer ! 0)) OR uint (trailer ! 1) = calculate_crc data_block"
    using assms(1) by (simp_all add: trailer_ok_def)
  have "ser_read 2 ser = (trailer, ser\<lparr>rx := rest\<rparr>)"
    using assms(2) len by (rule ser_read_all)
  then show ?thesis
    using True len crc by (simp add: read_trailer_def)
next
  case False
  then have len: "length trailer = 1" and sum: "ord trailer = calculate_checksum data_block"
    using assms(1) by (simp_all add: trailer_ok_def)
  have "ser_read 1 ser = (trailer, ser\<lparr>rx := rest\<rparr>)"
    using assms(2) len by (rule ser_read_all)
  moreover have "trailer \<noteq> []"
    using len by auto
  ultimately show ?thesis
    using False sum by (simp add: read_trailer_def)
qed

lemma receive_block_valid:
  assumes "rx (link s) = map Some (data_block @ trailer) @ rest"
    and "length data_block = 128" and "trailer_ok use_crc data_block trailer"
  shows "receive_block use_crc block_num s =
           (case sequence_check block_num data_block (s\<lparr>link := (link s)\<lparr>rx := rest\<rparr>\<rparr>) of
              (False, s') \<Rightarrow> Return_False s'
            | (True, s') \<Rightarrow> read_after_frame s')"
proof -
  have "rx (link s) = map Some data_block @ (map Some trailer @ rest)"
    using assms(1) by simp
  then have r: "ser_read BLOCK_SIZE (link s) = (data_block, (link s)\<lparr>rx := map Some trailer @ rest\<rparr>)"
    using assms(2) by (intro ser_read_all) (simp_all add: BLOCK_SIZE_def)
  have t: "read_trailer use_crc data_block ((link s)\<lparr>rx := map Some trailer @ rest\<rparr>)
             = (True, (link s)\<lparr>rx := rest\<rparr>)"
    using read_trailer_ok [OF assms(3), of "(link s)\<lparr>rx := map Some trailer @ rest\<rparr>" rest]
    by simp
  have len: "length data_block = BLOCK_SIZE"
    using assms(2) by (simp add: BLOCK_SIZE_def)
  show ?thesis
    using len by (simp add: receive_block_def r t)
qed

lemma receive_frame_valid:
  assumes "rx (link s) = Some bn # Some cmpl # map Some (data_block @ trailer) @ rest"
    and "uint bn + uint cmpl = 255"
    and "length data_block = 128" and "trailer_ok use_crc data_block trailer"
  shows "receive_frame use_crc s =
           (case sequence_check [bn] data_block (s\<lparr>link := (link s)\<lparr>rx := rest\<rparr>\<rparr>) of
              (False, s') \<Rightarrow> Return_False s'
            | (True, s') \<Rightarrow> read_after_frame s')"
proof -
  let ?s2 = "s\<lparr>link := (link s)\<lparr>rx := map Some (data_block @ trailer) @ rest\<rparr>\<rparr>"
  have "receive_frame use_crc s = receive_block use_crc [bn] ?s2"
    using assms(1,2) by (simp add: receive_frame_def ser_read_def ord_def)
  also have "\<dots> = (case sequence_check [bn] data_block (?s2\<lparr>link := (link ?s2)\<lparr>rx := rest\<rparr>\<rparr>) of
              (False, s') \<Rightarrow> Return_False s'
            | (True, s') \<Rightarrow> read_after_frame s')"
    by (rule receive_block_valid [OF _ assms(3,4)]) simp
  finally show ?thesis by simp
qed

lemma read_after_frame_keeps:
  "received_data (state_of (read_after_frame s)) = received_data s
   \<and> expected_block (state_of (read_after_frame s)) = expected_block s"
  by (simp add: read_after_frame_def state_of_def split: prod.splits)

section \<open>Receiver: sequence check\<close>

lemma ser_read_tx: "ser_read n ser = (data, ser') \<Longrightarrow> tx ser' = tx ser"
  by (auto simp: ser_read_def split: prod.splits)

lemma read_after_frame_tx:
  "\<exists>ys. tx (link (state_of (read_after_frame s))) = tx (link s) @ ys"
proof -
  obtain data ser1 where r: "ser_read 1 (link s) = (data, ser1)"
    by (cases "ser_read 1 (link s)")
  then have "tx ser1 = tx (link s)"
    by (rule ser_read_tx)
  then show ?thesis
    by (simp add: read_after_frame_def state_of_def r ser_write_def del: One_nat_def)
qed

lemma previous_block_differs: "uint (bn::byte) = (E - 1) mod 256 \<Longrightarrow> uint bn \<noteq> E"
proof
  assume a: "uint bn = (E - 1) mod 256" and b: "uint bn = E"
  have E: "0 \<le> E" "E < 256"
    using uint_bounded [of bn] uint_nonnegative [of bn] b by simp_all
  show False
  proof (cases "E = 0")
    case True
    then show ?thesis using a b by simp
  next
    case False
    then have "(E - 1) mod 256 = E - 1"
      using E by (intro mod_pos_pos_trivial) simp_all
    then show ?thesis using a b by simp
  qed
qed

text \<open>
  C7. In every state of the receiver, a frame that passes the complement check and the
  integrity check and whose block number is (\<open>expected_block\<close> - 1) mod 256 is answered
  with ACK and nothing else happens before the read after the frame; at the end of the pass
  the accumulated payload and \<open>expected_block\<close> are what they were.
\<close>

theorem duplicate_frame_idempotent:
  assumes "rx (link s) = Some bn # Some cmpl # map Some (data_block @ trailer) @ rest"
    and "uint bn + uint cmpl = 255"
    and "length data_block = 128"
    and "trailer_ok use_crc data_block trailer"
    and "uint bn = (expected_block s - 1) mod 256"
  shows "receive_frame use_crc s
           = read_after_frame (s\<lparr>link := ser_write ACK ((link s)\<lparr>rx := rest\<rparr>)\<rparr>)
         \<and> received_data (state_of (receive_frame use_crc s)) = received_data s
         \<and> expected_block (state_of (receive_frame use_crc s)) = expected_block s
         \<and> (\<exists>ys. tx (link (state_of (receive_frame use_crc s))) = tx (link s) @ ACK @ ys)"
proof -
  let ?s' = "s\<lparr>link := ser_write ACK ((link s)\<lparr>rx := rest\<rparr>)\<rparr>"
  have ne: "uint bn \<noteq> expected_block s"
    using assms(5) by (rule previous_block_differs)
  have step: "receive_frame use_crc s = read_after_frame ?s'"
    using ne assms(5)
    by (simp add: receive_frame_valid [OF assms(1-4)] sequence_check_def ord_def)
  obtain ys where "tx (link (state_of (read_after_frame ?s'))) = tx (link ?s') @ ys"
    using read_after_frame_tx by blast
  then have "tx (link (state_of (receive_frame use_crc s))) = tx (link s) @ ACK @ ys"
    by (simp add: step ser_write_def)
  then show ?thesis
    using read_after_frame_keeps [of ?s'] by (auto simp: step)
qed

theorem duplicate_frame_idempotent_witness:
  "receive_frame True
     \<lparr>link = \<lparr>rx = Some 0x01 # Some 0xFE # map Some (replicate 128 0x00 @ [0x00, 0x00]) @ [Some 0x04],
              tx = [], now = 0\<rparr>,
      received_data = replicate 128 0x00, expected_block = 2\<rparr>
   = Break \<lparr>link = \<lparr>rx = [], tx = [0x06, 0x06], now = 0\<rparr>,
            received_data = replicate 128 0x00, expected_block = 2\<rparr>"
proof -
  let ?s = "\<lparr>link = \<lparr>rx = Some 0x01 # Some 0xFE # map Some (replicate 128 0x00 @ [0x00, 0x00]) @ [Some 0x04],
              tx = [], now = 0\<rparr>,
      received_data = replicate 128 (0x00::byte), expected_block = 2\<rparr>"
  have t: "trailer_ok True (replicate 128 0x00) [0x00, 0x00]"
    by (simp add: trailer_ok_def calculate_crc_zeros)
  have "receive_frame True ?s = read_after_frame (?s\<lparr>link := ser_write ACK ((link ?s)\<lparr>rx := [Some 0x04]\<rparr>)\<rparr>)"
    using duplicate_frame_idempotent [of ?s "0x01" "0xFE" "replicate 128 0x00" "[0x00, 0x00]" "[Some 0x04]" True, OF _ _ _ t]
    by simp
  then show ?thesis
    by (simp add: read_after_frame_def ser_read_def ser_write_def ACK_def EOT_def)
qed

text \<open>
  C8. A frame that passes both checks and whose block number is neither
  \<open>expected_block\<close> nor (\<open>expected_block\<close> - 1) mod 256 makes the receiver write CAN
  twice and return \<open>False\<close>, with the output file untouched; and whenever the loop
  ends in \<open>return False\<close>, \<open>receive_file\<close> returns \<open>False\<close> with the output file
  untouched: the file is opened only after the loop has ended on EOT.
\<close>

theorem out_of_sequence_aborts:
  assumes "rx (link s) = Some bn # Some cmpl # map Some (data_block @ trailer) @ rest"
    and "uint bn + uint cmpl = 255"
    and "length data_block = 128"
    and "trailer_ok use_crc data_block trailer"
    and "uint bn \<noteq> expected_block s"
    and "uint bn \<noteq> (expected_block s - 1) mod 256"
  shows "receive_frame use_crc s
           = Return_False (s\<lparr>link := (link s)\<lparr>rx := rest, tx := tx (link s) @ CAN @ CAN\<rparr>\<rparr>)
         \<and> receive_frames (Suc fuel) use_crc s out
           = Some (False, (link s)\<lparr>rx := rest, tx := tx (link s) @ CAN @ CAN\<rparr>, out)
         \<and> (\<forall>k t s'. receive_loop k use_crc t = Some (False, s') \<longrightarrow>
                receive_frames k use_crc t out = Some (False, link s', out))"
proof -
  have step: "receive_frame use_crc s
           = Return_False (s\<lparr>link := (link s)\<lparr>rx := rest, tx := tx (link s) @ CAN @ CAN\<rparr>\<rparr>)"
    using assms(5,6)
    by (simp add: receive_frame_valid [OF assms(1-4)] sequence_check_def ord_def ser_write_def)
  have run: "receive_frames (Suc fuel) use_crc s out
           = Some (False, (link s)\<lparr>rx := rest, tx := tx (link s) @ CAN @ CAN\<rparr>, out)"
    by (simp add: receive_frames_def step)
  have only: "\<forall>k t s'. receive_loop k use_crc t = Some (False, s') \<longrightarrow>
                receive_frames k use_crc t out = Some (False, link s', out)"
    by (simp add: receive_frames_def)
  show ?thesis
    by (intro conjI) (rule step run only)+
qed

theorem out_of_sequence_aborts_witness:
  "receive_frames 1 True
     \<lparr>link = \<lparr>rx = Some 0x03 # Some 0xFC # map Some (replicate 128 0x00 @ [0x00, 0x00]) @ [Some 0x04],
              tx = [], now = 0\<rparr>,
      received_data = replicate 128 0x00, expected_block = 2\<rparr>
     \<lparr>content = None, openable = True, writable = True\<rparr>
   = Some (False, \<lparr>rx = [Some 0x04], tx = [0x18, 0x18], now = 0\<rparr>, \<lparr>content = None, openable = True, writable = True\<rparr>)"
proof -
  let ?s = "\<lparr>link = \<lparr>rx = Some 0x03 # Some 0xFC # map Some (replicate 128 0x00 @ [0x00, 0x00]) @ [Some 0x04],
              tx = [], now = 0\<rparr>,
      received_data = replicate 128 (0x00::byte), expected_block = 2\<rparr>"
  have t: "trailer_ok True (replicate 128 0x00) [0x00, 0x00]"
    by (simp add: trailer_ok_def calculate_crc_zeros)
  show ?thesis
    using out_of_sequence_aborts [of ?s "0x03" "0xFC" "replicate 128 0x00" "[0x00, 0x00]" "[Some 0x04]" True 0
        "\<lparr>content = None, openable = True, writable = True\<rparr>", OF _ _ _ t]
    by (simp add: CAN_def)
qed

section \<open>Receiver: the byte after a frame\<close>

lemma lead_eot: "rx (link s) = Some 0x04 # rest \<Longrightarrow>
   read_after_frame s = Break (s\<lparr>link := (link s)\<lparr>rx := rest, tx := tx (link s) @ ACK\<rparr>\<rparr>)"
  by (simp add: read_after_frame_def ser_read_def ser_write_def EOT_def)

lemma lead_soh: "rx (link s) = Some 0x01 # rest \<Longrightarrow>
   read_after_frame s = Continue (s\<lparr>link := (link s)\<lparr>rx := rest\<rparr>\<rparr>)"
  by (simp add: read_after_frame_def ser_read_def ser_write_def EOT_def SOH_def)

text \<open>
  C6. After a frame, EOT ends the transfer with ACK and SOH is consumed as the lead byte of
  the next frame (the two lemmas above). After a silence, however, the loop returns to its
  top, which reads a block number at once: block 1 has been received and acknowledged, the
  read after it times out, and then block 2 arrives as a well-formed frame (SOH, 0x02,
  0xFD, 128 bytes of 0x00, CRC 0x0000). The receiver takes SOH for the block number and
  0x02 for the complement, and answers NAK.
\<close>

theorem frame_after_silence_is_refused:
  "read_after_frame
     \<lparr>link = \<lparr>rx = None # Some 0x01 # Some 0x02 # Some 0xFD
                      # map Some (replicate 128 0x00 @ [0x00, 0x00]),
              tx = [0x06], now = 0\<rparr>,
      received_data = replicate 128 0x00, expected_block = 2\<rparr>
   = Continue
     \<lparr>link = \<lparr>rx = Some 0x01 # Some 0x02 # Some 0xFD
                      # map Some (replicate 128 0x00 @ [0x00, 0x00]),
              tx = [0x06], now = 1\<rparr>,
      received_data = replicate 128 0x00, expected_block = 2\<rparr>
   \<and> receive_frame True
     \<lparr>link = \<lparr>rx = Some 0x01 # Some 0x02 # Some 0xFD
                      # map Some (replicate 128 0x00 @ [0x00, 0x00]),
              tx = [0x06], now = 1\<rparr>,
      received_data = replicate 128 0x00, expected_block = 2\<rparr>
   = Continue
     \<lparr>link = \<lparr>rx = Some 0xFD # map Some (replicate 128 0x00 @ [0x00, 0x00]),
              tx = [0x06, 0x15], now = 1\<rparr>,
      received_data = replicate 128 0x00, expected_block = 2\<rparr>"
  by (simp add: read_after_frame_def receive_frame_def ser_read_def ser_write_def
        PORT_TIMEOUT_def EOT_def SOH_def NAK_def ord_def)

section \<open>Sender: the retry loop\<close>

lemma port_order:
  "rx_update f (tx_update g ser) = tx_update g (rx_update f ser)"
  "rx_update f (now_update h ser) = now_update h (rx_update f ser)"
  "tx_update g (now_update h ser) = now_update h (tx_update g ser)"
  by simp_all

lemma ser_read_one:
  "ser_read (Suc 0) ser =
     (case rx ser of
        [] \<Rightarrow> ([], ser\<lparr>rx := [], now := now ser + 1\<rparr>)
      | None # rest \<Rightarrow> ([], ser\<lparr>rx := rest, now := now ser + 1\<rparr>)
      | Some b # rest \<Rightarrow> ([b], ser\<lparr>rx := rest\<rparr>))"
  by (simp add: ser_read_def PORT_TIMEOUT_def split: list.splits option.splits)

lemma send_attempt_again:
  assumes "retries < 10"
    and "\<forall>ev\<in>set (line_events 1 (rx ser)). ev \<noteq> Some 0x06 \<and> ev \<noteq> Some 0x18"
  shows "send_attempts use_crc bn blk retries ser =
         send_attempts use_crc bn blk (retries + 1)
           (ser\<lparr>rx := drop 1 (rx ser), tx := tx ser @ build_packet use_crc bn blk,
                now := now ser + int (count_list (line_events 1 (rx ser)) None)\<rparr>)"
proof (cases "rx ser")
  case Nil
  then show ?thesis
    using assms(1)
    by (subst send_attempts.simps)
       (simp add: RETRY_LIMIT_def ser_read_one ser_write_def ACK_def NAK_def CAN_def C_def port_order Let_def)
next
  case (Cons ev rest)
  show ?thesis
  proof (cases ev)
    case None
    then show ?thesis
      using assms(1) Cons
      by (subst send_attempts.simps)
         (simp add: RETRY_LIMIT_def ser_read_one ser_write_def ACK_def NAK_def CAN_def C_def port_order Let_def)
  next
    case (Some b)
    then have "b \<noteq> 0x06" "b \<noteq> 0x18"
      using assms(2) Cons by simp_all
    then show ?thesis
      using assms(1) Cons Some
      by (subst send_attempts.simps)
         (simp add: RETRY_LIMIT_def ser_read_one ser_write_def ACK_def NAK_def CAN_def C_def port_order Let_def)
  qed
qed

lemma line_events_Suc:
  "line_events (Suc n) evs = line_events 1 evs @ line_events n (drop 1 evs)"
  by (cases evs) simp_all

lemma send_attempts_again:
  assumes "\<forall>ev\<in>set (line_events n (rx ser)). ev \<noteq> Some 0x06 \<and> ev \<noteq> Some 0x18"
    and "retries + int n \<le> 10"
  shows "send_attempts use_crc bn blk retries ser =
         send_attempts use_crc bn blk (retries + int n)
           (ser\<lparr>rx := drop n (rx ser),
                tx := tx ser @ concat (replicate n (build_packet use_crc bn blk)),
                now := now ser + int (count_list (line_events n (rx ser)) None)\<rparr>)"
  using assms
proof (induction n arbitrary: retries ser)
  case 0
  then show ?case by simp
next
  case (Suc n)
  let ?ser1 = "ser\<lparr>rx := drop 1 (rx ser), tx := tx ser @ build_packet use_crc bn blk,
                now := now ser + int (count_list (line_events 1 (rx ser)) None)\<rparr>"
  have bad: "\<forall>ev\<in>set (line_events 1 (rx ser)). ev \<noteq> Some 0x06 \<and> ev \<noteq> Some 0x18"
    "\<forall>ev\<in>set (line_events n (rx ?ser1)). ev \<noteq> Some 0x06 \<and> ev \<noteq> Some 0x18"
    using Suc.prems(1) by (simp_all add: line_events_Suc [of n])
  have "send_attempts use_crc bn blk retries ser = send_attempts use_crc bn blk (retries + 1) ?ser1"
    using Suc.prems(2) bad(1) by (intro send_attempt_again) simp_all
  also have "\<dots> = send_attempts use_crc bn blk (retries + 1 + int n)
           (?ser1\<lparr>rx := drop n (rx ?ser1),
                tx := tx ?ser1 @ concat (replicate n (build_packet use_crc bn blk)),
                now := now ?ser1 + int (count_list (line_events n (rx ?ser1)) None)\<rparr>)"
    using Suc.prems(2) bad(2) by (intro Suc.IH) simp_all
  finally show ?case
    by (simp add: line_events_Suc [of n] port_order add.commute add.left_commute)
qed

lemma send_attempts_ack:
  assumes "retries < 10" "rx ser = Some 0x06 # rest"
  shows "send_attempts use_crc bn blk retries ser =
         (Exit retries, ser\<lparr>rx := rest, tx := tx ser @ build_packet use_crc bn blk\<rparr>)"
  using assms
  by (subst send_attempts.simps)
     (simp add: RETRY_LIMIT_def ser_read_one ser_write_def ACK_def port_order Let_def)

lemma send_attempts_can:
  assumes "retries < 10" "rx ser = Some 0x18 # rest"
  shows "send_attempts use_crc bn blk retries ser =
         (Returned False, ser\<lparr>rx := rest, tx := tx ser @ build_packet use_crc bn blk\<rparr>)"
  using assms
  by (subst send_attempts.simps)
     (simp add: RETRY_LIMIT_def ser_read_one ser_write_def ACK_def NAK_def CAN_def C_def port_order Let_def)

lemma send_attempts_limit:
  "send_attempts use_crc bn blk 10 ser = (Exit 10, ser)"
  by (subst send_attempts.simps) (simp add: RETRY_LIMIT_def)

lemma line_events_append: "line_events (length evs) (evs @ rest) = evs"
  by (induction evs) simp_all

lemma concat_replicate_snoc: "concat (replicate (Suc n) p) = concat (replicate n p) @ p"
  by (induction n) simp_all

text \<open>
  C9. Let the responses to the frame of a block begin with \<open>evs\<close>, none of them ACK or
  CAN (each is NAK, 'C', another byte, or a timeout). Every attempt writes the same frame
  \<open>build_packet use_crc bn blk\<close>: SOH, the block number, its complement, the block and
  the trailer of the mode (CRC high byte first, or the checksum). If fewer than ten such responses are followed by ACK, the
  sender goes on to the next block with block number (\<open>bn\<close> + 1) mod 256; if they are
  followed by CAN, it returns \<open>False\<close> and writes nothing more; and if the first ten
  responses are all of this kind, it has written the frame ten times, writes CAN CAN and
  returns \<open>False\<close>. The block number changes in the first case only.
\<close>

theorem sender_retry_discipline:
  assumes "\<forall>ev\<in>set evs. ev \<noteq> Some 0x06 \<and> ev \<noteq> Some 0x18"
  shows "(length evs < 10 \<longrightarrow> rx ser = evs @ Some 0x06 # rest \<longrightarrow>
            send_blocks use_crc bn (blk # blks) ser =
            send_blocks use_crc ((bn + 1) mod 256) blks
              (ser\<lparr>rx := rest,
                   tx := tx ser @ concat (replicate (Suc (length evs)) (build_packet use_crc bn blk)),
                   now := now ser + int (count_list evs None)\<rparr>))
       \<and> (length evs < 10 \<longrightarrow> rx ser = evs @ Some 0x18 # rest \<longrightarrow>
            send_blocks use_crc bn (blk # blks) ser =
            (Some False,
             ser\<lparr>rx := rest,
                  tx := tx ser @ concat (replicate (Suc (length evs)) (build_packet use_crc bn blk)),
                  now := now ser + int (count_list evs None)\<rparr>))
       \<and> (line_events 10 (rx ser) = evs \<longrightarrow>
            send_blocks use_crc bn (blk # blks) ser =
            (Some False,
             ser\<lparr>rx := drop 10 (rx ser),
                  tx := tx ser @ concat (replicate 10 (build_packet use_crc bn blk)) @ CAN @ CAN,
                  now := now ser + int (count_list evs None)\<rparr>))
       \<and> build_packet use_crc bn blk =
            [0x01, word_of_int (bn AND 0xFF), word_of_int (255 - (bn AND 0xFF))] @ blk
            @ (if use_crc
               then [word_of_int (drop_bit 8 (calculate_crc blk) AND 0xFF),
                     word_of_int (calculate_crc blk AND 0xFF)]
               else [word_of_int (calculate_checksum blk)])"
proof (intro conjI impI)
  let ?k = "length evs"
  let ?p = "build_packet use_crc bn blk"
  have again: "send_attempts use_crc bn blk 0 ser =
         send_attempts use_crc bn blk (int ?k)
           (ser\<lparr>rx := b' # rest, tx := tx ser @ concat (replicate ?k ?p),
                now := now ser + int (count_list evs None)\<rparr>)"
    if "?k < 10" "rx ser = evs @ b' # rest" for b'
    using send_attempts_again [of ?k ser 0 use_crc bn blk] assms that
    by (simp add: line_events_append)
  {
    assume k: "?k < 10" and rx: "rx ser = evs @ Some 0x06 # rest"
    have "send_attempts use_crc bn blk 0 ser =
          (Exit (int ?k), ser\<lparr>rx := rest, tx := tx ser @ concat (replicate (Suc ?k) ?p),
                now := now ser + int (count_list evs None)\<rparr>)"
      using k by (simp add: again [OF k rx] send_attempts_ack port_order concat_replicate_snoc del: replicate_Suc)
    then show "send_blocks use_crc bn (blk # blks) ser =
            send_blocks use_crc ((bn + 1) mod 256) blks
              (ser\<lparr>rx := rest, tx := tx ser @ concat (replicate (Suc ?k) ?p),
                   now := now ser + int (count_list evs None)\<rparr>)"
      using k by (simp add: RETRY_LIMIT_def del: replicate_Suc)
  }
  {
    assume k: "?k < 10" and rx: "rx ser = evs @ Some 0x18 # rest"
    have "send_attempts use_crc bn blk 0 ser =
          (Returned False, ser\<lparr>rx := rest, tx := tx ser @ concat (replicate (Suc ?k) ?p),
                now := now ser + int (count_list evs None)\<rparr>)"
      using k by (simp add: again [OF k rx] send_attempts_can port_order concat_replicate_snoc del: replicate_Suc)
    then show "send_blocks use_crc bn (blk # blks) ser =
            (Some False, ser\<lparr>rx := rest, tx := tx ser @ concat (replicate (Suc ?k) ?p),
                   now := now ser + int (count_list evs None)\<rparr>)"
      by (simp del: replicate_Suc)
  }
  {
    assume ev: "line_events 10 (rx ser) = evs"
    have "send_attempts use_crc bn blk 0 ser =
          (Exit 10, ser\<lparr>rx := drop 10 (rx ser), tx := tx ser @ concat (replicate 10 ?p),
                now := now ser + int (count_list evs None)\<rparr>)"
      using send_attempts_again [of 10 ser 0 use_crc bn blk] assms ev
      by (simp add: send_attempts_limit)
    then show "send_blocks use_crc bn (blk # blks) ser =
            (Some False,
             ser\<lparr>rx := drop 10 (rx ser), tx := tx ser @ concat (replicate 10 ?p) @ CAN @ CAN,
                  now := now ser + int (count_list evs None)\<rparr>)"
      by (simp add: RETRY_LIMIT_def ser_write_def port_order)
  }
  show "build_packet use_crc bn blk =
            [0x01, word_of_int (bn AND 0xFF), word_of_int (255 - (bn AND 0xFF))] @ blk
            @ (if use_crc
               then [word_of_int (drop_bit 8 (calculate_crc blk) AND 0xFF),
                     word_of_int (calculate_crc blk AND 0xFF)]
               else [word_of_int (calculate_checksum blk)])"
    by (simp add: build_packet_def SOH_def byte_of_def Let_def)
qed


theorem sender_retry_discipline_witness:
  "send_blocks True 1 [replicate 128 0x00]
         \<lparr>rx = [Some 0x15, None, Some 0x43, Some 0x06], tx = [], now = 0\<rparr>
       = (None, \<lparr>rx = [],
                 tx = concat (replicate 4 ([0x01, 0x01, 0xFE] @ replicate 128 0x00 @ [0x00, 0x00])),
                 now = 1\<rparr>)
   \<and> send_blocks True 1 [replicate 128 0x00] \<lparr>rx = replicate 10 (Some 0x15), tx = [], now = 0\<rparr>
       = (Some False,
          \<lparr>rx = [],
           tx = concat (replicate 10 ([0x01, 0x01, 0xFE] @ replicate 128 0x00 @ [0x00, 0x00]))
                @ [0x18, 0x18],
           now = 0\<rparr>)"
proof -
  let ?p = "[0x01, 0x01, 0xFE] @ replicate 128 0x00 @ [0x00, 0x00::byte]"
  have bad3: "\<forall>ev\<in>set [Some 0x15, None, Some (0x43::byte)]. ev \<noteq> Some 0x06 \<and> ev \<noteq> Some 0x18"
    by simp
  have bad10: "\<forall>ev\<in>set (replicate 10 (Some (0x15::byte))). ev \<noteq> Some 0x06 \<and> ev \<noteq> Some 0x18"
    by simp
  note t3 = sender_retry_discipline [OF bad3,
      of "\<lparr>rx = [Some 0x15, None, Some 0x43, Some 0x06], tx = [], now = 0\<rparr>" "[]" True 1
        "replicate 128 0x00" "[]"]
  note t10 = sender_retry_discipline [OF bad10,
      of "\<lparr>rx = replicate 10 (Some 0x15), tx = [], now = 0\<rparr>" "[]" True 1
        "replicate 128 0x00" "[]"]
  have pk: "build_packet True 1 (replicate 128 0x00) = ?p"
    using t3 [THEN conjunct2, THEN conjunct2, THEN conjunct2]
    by (simp add: calculate_crc_zeros and_FF_mod)
  have four: "(4::nat) = Suc (Suc (Suc (Suc 0)))"
    by simp
  have a: "send_blocks True 1 [replicate 128 0x00]
         \<lparr>rx = [Some 0x15, None, Some 0x43, Some 0x06], tx = [], now = 0\<rparr>
       = (None, \<lparr>rx = [], tx = concat (replicate 4 ?p), now = 1\<rparr>)"
    using t3 [THEN conjunct1]
    by (simp add: pk four del: replicate_Suc concat.simps replicate.simps)
  have l: "line_events 10 (replicate 10 (Some (0x15::byte))) = replicate 10 (Some 0x15)"
    using line_events_append [of "replicate 10 (Some (0x15::byte))" "[]"] by simp
  have b: "send_blocks True 1 [replicate 128 0x00] \<lparr>rx = replicate 10 (Some 0x15), tx = [], now = 0\<rparr>
       = (Some False,
          \<lparr>rx = [], tx = concat (replicate 10 ?p) @ [0x18, 0x18], now = 0\<rparr>)"
    using t10 [THEN conjunct2, THEN conjunct2, THEN conjunct1] l
    by (simp add: CAN_def count_list_0_iff pk)
  show ?thesis
    by (intro conjI) (rule a b)+
qed

section \<open>Sender: handshake and end of transmission\<close>

lemma wait_initiate_byte:
  "rx ser = replicate k None @ Some b # rest \<Longrightarrow> now ser - start + int k < 10 \<Longrightarrow>
     wait_initiate start ser = (Some [b], ser\<lparr>rx := rest, now := now ser + int k\<rparr>)"
proof (induction k arbitrary: ser)
  case 0
  then show ?case
    by (subst wait_initiate.simps) (simp add: RECV_TIMEOUT_def ser_read_one)
next
  case (Suc k)
  let ?ser1 = "ser\<lparr>rx := replicate k None @ Some b # rest, now := now ser + 1\<rparr>"
  have "wait_initiate start ser = wait_initiate start ?ser1"
    using Suc.prems by (subst wait_initiate.simps) (simp add: RECV_TIMEOUT_def ser_read_one)
  also have "\<dots> = (Some [b], ?ser1\<lparr>rx := rest, now := now ?ser1 + int k\<rparr>)"
    using Suc.prems by (intro Suc.IH) simp_all
  finally show ?case by (simp add: add.commute add.left_commute)
qed

lemma wait_initiate_silent:
  "line_events n (rx ser) = replicate n None \<Longrightarrow> now ser - start + int n = 10 \<Longrightarrow>
     wait_initiate start ser = (None, ser\<lparr>rx := drop n (rx ser), now := now ser + int n\<rparr>)"
proof (induction n arbitrary: ser)
  case 0
  then show ?case
    by (subst wait_initiate.simps) (simp add: RECV_TIMEOUT_def)
next
  case (Suc n)
  let ?ser1 = "ser\<lparr>rx := drop 1 (rx ser), now := now ser + 1\<rparr>"
  have ev1: "line_events 1 (rx ser) = [None]"
    using Suc.prems(1) by (cases "rx ser") simp_all
  have ev2: "line_events n (rx ?ser1) = replicate n None"
    using Suc.prems(1) by (cases "rx ser") simp_all
  have "ser_read (Suc 0) ser = ([], ?ser1)"
    using ev1 by (cases "rx ser") (auto simp: ser_read_one)
  then have "wait_initiate start ser = wait_initiate start ?ser1"
    using Suc.prems(2) by (subst wait_initiate.simps) (simp add: RECV_TIMEOUT_def)
  also have "\<dots> = (None, ?ser1\<lparr>rx := drop n (rx ?ser1), now := now ?ser1 + int n\<rparr>)"
    using Suc.prems(2) ev2 by (intro Suc.IH) simp_all
  finally show ?case by (simp add: add.commute add.left_commute)
qed

lemma send_eot_tx: "\<exists>n. tx (snd (send_eot retries ser)) = tx ser @ replicate n 0x04"
proof (induction retries ser rule: send_eot.induct)
  case (1 retries ser)
  show ?case
  proof (cases "retries < RETRY_LIMIT")
    case False
    then have "send_eot retries ser = (False, ser)"
      by (subst send_eot.simps) simp
    then show ?thesis by simp
  next
    case True
    obtain response ser' where r: "ser_read 1 (ser_write EOT ser) = (response, ser')"
      by (cases "ser_read 1 (ser_write EOT ser)")
    then have t: "tx ser' = tx ser @ [0x04]"
      using ser_read_tx [OF r] by (simp add: ser_write_def EOT_def)
    show ?thesis
    proof (cases "response = ACK")
      case ack: True
      have "send_eot retries ser = (True, ser')"
        using True r ack by (subst send_eot.simps) (simp del: One_nat_def)
      then have "tx (snd (send_eot retries ser)) = tx ser @ replicate 1 0x04"
        using t by simp
      then show ?thesis by blast
    next
      case nack: False
      have e: "send_eot retries ser = send_eot (retries + 1) (sleep 1 ser')"
        using True r nack by (subst send_eot.simps) (simp del: One_nat_def)
      obtain n where "tx (snd (send_eot (retries + 1) (sleep 1 ser'))) = tx (sleep 1 ser') @ replicate n 0x04"
        using "1.IH" [OF True r [symmetric] nack] by blast
      then have "tx (snd (send_eot retries ser)) = tx ser @ replicate (Suc n) 0x04"
        using t e by (simp add: sleep_def)
      then show ?thesis by blast
    qed
  qed
qed

lemma send_eot_first:
  "retries < 10 \<Longrightarrow> \<exists>n. tx (snd (send_eot retries ser)) = tx ser @ EOT @ replicate n 0x04"
proof -
  assume a: "retries < 10"
  obtain response ser' where r: "ser_read 1 (ser_write EOT ser) = (response, ser')"
    by (cases "ser_read 1 (ser_write EOT ser)")
  then have t: "tx ser' = tx ser @ EOT"
    using ser_read_tx [OF r] by (simp add: ser_write_def)
  show ?thesis
  proof (cases "response = ACK")
    case True
    have "send_eot retries ser = (True, ser')"
      using a r True by (subst send_eot.simps) (simp add: RETRY_LIMIT_def del: One_nat_def)
    then have "tx (snd (send_eot retries ser)) = tx ser @ EOT @ replicate 0 0x04"
      using t by simp
    then show ?thesis by blast
  next
    case False
    have e: "send_eot retries ser = send_eot (retries + 1) (sleep 1 ser')"
      using a r False by (subst send_eot.simps) (simp add: RETRY_LIMIT_def del: One_nat_def)
    obtain n where "tx (snd (send_eot (retries + 1) (sleep 1 ser'))) = tx (sleep 1 ser') @ replicate n 0x04"
      using send_eot_tx by blast
    then have "tx (snd (send_eot retries ser)) = tx ser @ EOT @ replicate n 0x04"
      using t e by (simp add: sleep_def)
    then show ?thesis by blast
  qed
qed

lemma split_blocks_empty: "split_blocks [] = []"
  by (simp add: split_blocks_def range_step_def BLOCK_SIZE_def)

text \<open>
  C10. A file whose length is a multiple of 128 gets no padding; the empty file gives no
  block; and once a byte has arrived within the handshake window, the sender of an empty
  file goes straight to the EOT loop: everything it writes is EOT, at least once.
\<close>

theorem exact_multiple_gets_no_padding:
  "(length F mod 128 = 0 \<longrightarrow> pad_content F = F)
   \<and> split_blocks (pad_content []) = []
   \<and> (k < 10 \<longrightarrow> rx ser = replicate k None @ Some b # rest \<longrightarrow>
        send_file ser (Some []) checksum_type
          = send_eot 0 (ser\<lparr>rx := rest, now := now ser + int k\<rparr>)
        \<and> (\<exists>n. tx (snd (send_file ser (Some []) checksum_type)) = tx ser @ EOT @ replicate n 0x04))"
proof (intro conjI impI)
  show "pad_content F = F" if "length F mod 128 = 0"
    using that by (simp add: pad_content_eq)
  show "split_blocks (pad_content []) = []"
    by (simp add: pad_content_eq split_blocks_empty)
  assume k: "k < 10" and rx: "rx ser = replicate k None @ Some b # rest"
  let ?ser1 = "ser\<lparr>rx := rest, now := now ser + int k\<rparr>"
  have w: "wait_initiate (now ser) ser = (Some [b], ?ser1)"
    using rx k by (intro wait_initiate_byte) simp_all
  show e: "send_file ser (Some []) checksum_type = send_eot 0 ?ser1"
    by (simp add: send_file_def pad_content_eq split_blocks_empty w)
  show "\<exists>n. tx (snd (send_file ser (Some []) checksum_type)) = tx ser @ EOT @ replicate n 0x04"
    using send_eot_first [of 0 ?ser1] by (simp add: e)
qed

theorem exact_multiple_gets_no_padding_witness:
  "pad_content (replicate 128 0x41) = replicate 128 0x41
   \<and> send_file \<lparr>rx = [None, Some 0x43, Some 0x06], tx = [], now = 0\<rparr> (Some []) CRC
       = (True, \<lparr>rx = [], tx = [0x04], now = 1\<rparr>)"
proof -
  note t = exact_multiple_gets_no_padding [of "replicate 128 0x41" 1
      "\<lparr>rx = [None, Some 0x43, Some 0x06], tx = [], now = 0\<rparr>" "0x43" "[Some 0x06]" CRC]
  have a: "pad_content (replicate 128 0x41) = replicate 128 0x41"
    using t by simp
  have "send_file \<lparr>rx = [None, Some 0x43, Some 0x06], tx = [], now = 0\<rparr> (Some []) CRC
       = send_eot 0 \<lparr>rx = [Some 0x06], tx = [], now = 1\<rparr>"
    using t by simp
  also have "\<dots> = (True, \<lparr>rx = [], tx = [0x04], now = 1\<rparr>)"
    by (subst send_eot.simps) (simp add: RETRY_LIMIT_def ser_read_one ser_write_def EOT_def ACK_def)
  finally show ?thesis using a by simp
qed

section \<open>Sender: what is written\<close>

lemma send_attempts_tx:
  "\<exists>ys. tx (snd (send_attempts use_crc bn blk retries ser)) = tx ser @ ys"
proof (induction use_crc bn blk retries ser rule: send_attempts.induct)
  case (1 use_crc bn blk retries ser)
  show ?case
  proof (cases "retries < RETRY_LIMIT")
    case False
    then have "send_attempts use_crc bn blk retries ser = (Exit retries, ser)"
      by (subst send_attempts.simps) simp
    then show ?thesis by simp
  next
    case True
    let ?p = "build_packet use_crc bn blk"
    obtain response ser2 where r: "ser_read 1 (ser_write ?p ser) = (response, ser2)"
      by (cases "ser_read 1 (ser_write ?p ser)")
    have t: "tx ser2 = tx ser @ ?p"
      using ser_read_tx [OF r] by (simp add: ser_write_def)
    consider (ack) "response = ACK" | (can) "response \<noteq> ACK" "response \<noteq> NAK" "response \<noteq> C" "response = CAN"
      | (nak) "response \<noteq> ACK" "response = NAK \<or> response = C"
      | (other) "response \<noteq> ACK" "response \<noteq> NAK" "response \<noteq> C" "response \<noteq> CAN"
      by blast
    then show ?thesis
    proof cases
      case ack
      then have "send_attempts use_crc bn blk retries ser = (Exit retries, ser2)"
        using True r by (subst send_attempts.simps) (simp add: Let_def del: One_nat_def)
      then show ?thesis using t by simp
    next
      case can
      then have "send_attempts use_crc bn blk retries ser = (Returned False, ser2)"
        using True r by (subst send_attempts.simps) (simp add: Let_def del: One_nat_def)
      then show ?thesis using t by simp
    next
      case nak
      then have e: "send_attempts use_crc bn blk retries ser = send_attempts use_crc bn blk (retries + 1) ser2"
        using True r by (subst send_attempts.simps) (simp add: Let_def del: One_nat_def)
      obtain ys where "tx (snd (send_attempts use_crc bn blk (retries + 1) ser2)) = tx ser2 @ ys"
        using "1.IH"(1) [OF True refl refl r [symmetric] nak] by blast
      then show ?thesis using t e by simp
    next
      case other
      then have e: "send_attempts use_crc bn blk retries ser = send_attempts use_crc bn blk (retries + 1) ser2"
        using True r by (subst send_attempts.simps) (simp add: Let_def del: One_nat_def)
      obtain ys where "tx (snd (send_attempts use_crc bn blk (retries + 1) ser2)) = tx ser2 @ ys"
        using "1.IH"(2) [OF True refl refl r [symmetric] other(1) _ other(4)] other(2,3) by blast
      then show ?thesis using t e by simp
    qed
  qed
qed


lemma send_attempts_first:
  assumes "retries < 10"
  shows "\<exists>ys. tx (snd (send_attempts use_crc bn blk retries ser))
               = tx ser @ build_packet use_crc bn blk @ ys"
proof -
  let ?p = "build_packet use_crc bn blk"
  obtain response ser2 where r: "ser_read 1 (ser_write ?p ser) = (response, ser2)"
    by (cases "ser_read 1 (ser_write ?p ser)")
  have t: "tx ser2 = tx ser @ ?p"
    using ser_read_tx [OF r] by (simp add: ser_write_def)
  obtain ys where ys: "tx (snd (send_attempts use_crc bn blk (retries + 1) ser2)) = tx ser2 @ ys"
    using send_attempts_tx by blast
  have "send_attempts use_crc bn blk retries ser = (Exit retries, ser2)
        \<or> send_attempts use_crc bn blk retries ser = (Returned False, ser2)
        \<or> send_attempts use_crc bn blk retries ser = send_attempts use_crc bn blk (retries + 1) ser2"
    using assms r
    by (subst (1 2 3) send_attempts.simps) (simp add: Let_def RETRY_LIMIT_def del: One_nat_def)
  then show ?thesis
    using t ys by auto
qed

lemma send_blocks_tx:
  "\<exists>ys. tx (snd (send_blocks use_crc bn blks ser)) = tx ser @ ys"
proof (induction blks arbitrary: bn ser)
  case Nil
  then show ?case by simp
next
  case (Cons blk blks)
  obtain e ser' where a: "send_attempts use_crc bn blk 0 ser = (e, ser')"
    by (cases "send_attempts use_crc bn blk 0 ser")
  obtain ys where ys: "tx ser' = tx ser @ ys"
    using send_attempts_tx [of use_crc bn blk 0 ser] a by auto
  show ?case
  proof (cases e)
    case (Returned r)
    then show ?thesis using a ys by simp
  next
    case (Exit retries)
    show ?thesis
    proof (cases "retries \<ge> RETRY_LIMIT")
      case True
      then show ?thesis using a ys Exit by (simp add: ser_write_def)
    next
      case False
      obtain zs where "tx (snd (send_blocks use_crc ((bn + 1) mod 256) blks ser')) = tx ser' @ zs"
        using Cons.IH by blast
      then show ?thesis using a ys Exit False by simp
    qed
  qed
qed

lemma send_blocks_first:
  "\<exists>ys. tx (snd (send_blocks use_crc bn (blk # blks) ser))
          = tx ser @ build_packet use_crc bn blk @ ys"
proof -
  obtain e ser' where a: "send_attempts use_crc bn blk 0 ser = (e, ser')"
    by (cases "send_attempts use_crc bn blk 0 ser")
  obtain ys where ys: "tx ser' = tx ser @ build_packet use_crc bn blk @ ys"
    using send_attempts_first [of 0 use_crc bn blk ser] a by auto
  show ?thesis
  proof (cases e)
    case (Returned r)
    then show ?thesis using a ys by simp
  next
    case (Exit retries)
    show ?thesis
    proof (cases "retries \<ge> RETRY_LIMIT")
      case True
      then show ?thesis using a ys Exit by (simp add: ser_write_def)
    next
      case False
      obtain zs where "tx (snd (send_blocks use_crc ((bn + 1) mod 256) blks ser')) = tx ser' @ zs"
        using send_blocks_tx by blast
      then show ?thesis using a ys Exit False by simp
    qed
  qed
qed

lemma split_blocks_first:
  assumes "X \<noteq> []"
  shows "\<exists>bs. split_blocks X = take 128 X # bs"
proof -
  have "0 < (length X + 128 - 1) div 128"
    using assms by (cases X) simp_all
  then have "[0 ..< (length X + 128 - 1) div 128] = 0 # [1 ..< (length X + 128 - 1) div 128]"
    by (simp add: upt_conv_Cons)
  then show ?thesis
    by (simp add: split_blocks_def range_step_def BLOCK_SIZE_def)
qed

lemma pad_content_nonempty: "F \<noteq> [] \<Longrightarrow> pad_content F \<noteq> []"
  by (simp add: pad_content_eq)

section \<open>Sender: the handshake byte\<close>

lemma line_events_silent: "line_events n [] = replicate n None"
  by (induction n) simp_all

text \<open>
  C5, as the code has it. If the first ten reads of the handshake wait all time out, the
  sender returns \<open>False\<close> and has written nothing. If a byte arrives within the window,
  whatever byte it is, the sender starts the transfer at block number 1: in CRC mode when
  the byte is 'C' and CRC was requested, in checksum mode otherwise; for a file that is not
  empty the first thing it writes is the frame of block 1 in that mode.
\<close>

theorem handshake_accepts_any_byte:
  "(line_events 10 (rx ser) = replicate 10 None \<longrightarrow>
      send_file ser (Some F) checksum_type
        = (False, ser\<lparr>rx := drop 10 (rx ser), now := now ser + 10\<rparr>))
   \<and> (k < 10 \<longrightarrow> rx ser = replicate k None @ Some b # rest \<longrightarrow>
        send_file ser (Some F) checksum_type
          = (case send_blocks (b = 0x43 \<and> checksum_type = CRC) 1 (split_blocks (pad_content F))
                    (ser\<lparr>rx := rest, now := now ser + int k\<rparr>) of
               (Some r, ser2) \<Rightarrow> (r, ser2)
             | (None, ser2) \<Rightarrow> send_eot 0 ser2)
        \<and> (F \<noteq> [] \<longrightarrow>
             (\<exists>ys. tx (snd (send_file ser (Some F) checksum_type))
                    = tx ser @ build_packet (b = 0x43 \<and> checksum_type = CRC) 1
                                 (take 128 (pad_content F)) @ ys)))"
proof (intro conjI impI)
  assume "line_events 10 (rx ser) = replicate 10 None"
  then have "wait_initiate (now ser) ser = (None, ser\<lparr>rx := drop 10 (rx ser), now := now ser + int 10\<rparr>)"
    by (intro wait_initiate_silent) simp_all
  then show "send_file ser (Some F) checksum_type
        = (False, ser\<lparr>rx := drop 10 (rx ser), now := now ser + 10\<rparr>)"
    by (simp add: send_file_def Let_def)
next
  let ?u = "b = 0x43 \<and> checksum_type = CRC"
  let ?ser1 = "ser\<lparr>rx := rest, now := now ser + int k\<rparr>"
  let ?blocks = "split_blocks (pad_content F)"
  assume k: "k < 10" and rx: "rx ser = replicate k None @ Some b # rest"
  have w: "wait_initiate (now ser) ser = (Some [b], ?ser1)"
    using rx k by (intro wait_initiate_byte) simp_all
  show e: "send_file ser (Some F) checksum_type
          = (case send_blocks ?u 1 ?blocks ?ser1 of
               (Some r, ser2) \<Rightarrow> (r, ser2)
             | (None, ser2) \<Rightarrow> send_eot 0 ser2)"
    by (simp add: send_file_def Let_def w C_def)
  assume "F \<noteq> []"
  then obtain bs where bs: "?blocks = take 128 (pad_content F) # bs"
    using split_blocks_first [OF pad_content_nonempty] by blast
  let ?p = "build_packet ?u 1 (take 128 (pad_content F))"
  obtain res ser2 where s: "send_blocks ?u 1 ?blocks ?ser1 = (res, ser2)"
    by (cases "send_blocks ?u 1 ?blocks ?ser1")
  obtain ys where ys: "tx ser2 = tx ser @ ?p @ ys"
    using send_blocks_first [of ?u 1 "take 128 (pad_content F)" bs ?ser1] s bs by auto
  show "\<exists>ys. tx (snd (send_file ser (Some F) checksum_type)) = tx ser @ ?p @ ys"
  proof (cases res)
    case (Some r)
    then show ?thesis using e s ys by simp
  next
    case None
    obtain n where "tx (snd (send_eot 0 ser2)) = tx ser2 @ replicate n 0x04"
      using send_eot_tx by blast
    then show ?thesis using e s ys None by simp
  qed
qed

theorem handshake_accepts_any_byte_witness:
  "send_file \<lparr>rx = [], tx = [], now = 0\<rparr> (Some [0x41]) CRC = (False, \<lparr>rx = [], tx = [], now = 10\<rparr>)
   \<and> (\<exists>ys. tx (snd (send_file \<lparr>rx = [None, None, Some 0x15], tx = [], now = 0\<rparr> (Some [0x41]) CRC))
           = build_packet False 1 (take 128 (pad_content [0x41])) @ ys)"
proof -
  have a: "send_file \<lparr>rx = [], tx = [], now = 0\<rparr> (Some [0x41]) CRC
             = (False, \<lparr>rx = [], tx = [], now = 10\<rparr>)"
    using handshake_accepts_any_byte [of "\<lparr>rx = [], tx = [], now = 0\<rparr>" "[0x41]" CRC]
    by (simp add: line_events_silent)
  have h1: "(2::nat) < 10"
    by simp
  have h2: "rx \<lparr>rx = [None, None, Some 0x15], tx = [], now = 0\<rparr> = replicate 2 None @ Some 0x15 # []"
    by (simp add: numeral_2_eq_2)
  have h3: "[0x41::byte] \<noteq> []"
    by simp
  have "\<exists>ys. tx (snd (send_file \<lparr>rx = [None, None, Some 0x15], tx = [], now = 0\<rparr> (Some [0x41]) CRC))
           = tx \<lparr>rx = [None, None, Some 0x15], tx = [], now = 0\<rparr>
             @ build_packet (0x15 = (0x43::byte) \<and> CRC = CRC) 1 (take 128 (pad_content [0x41])) @ ys"
    by (rule handshake_accepts_any_byte [of "\<lparr>rx = [None, None, Some 0x15], tx = [], now = 0\<rparr>"
          "[0x41]" CRC 2 "0x15" "[]", THEN conjunct2, rule_format, OF h1 h2, THEN conjunct2,
          rule_format, OF h3])
  then have b: "\<exists>ys. tx (snd (send_file \<lparr>rx = [None, None, Some 0x15], tx = [], now = 0\<rparr> (Some [0x41]) CRC))
           = build_packet False 1 (take 128 (pad_content [0x41])) @ ys"
    by simp
  show ?thesis using a b by blast
qed

text \<open>
  C5 as stated fails: the first byte of the handshake wait is 0x00, neither 'C' nor NAK,
  and the sender does not abort. It sends the one-byte file as block 1 in checksum mode,
  then EOT, and returns \<open>True\<close>.
\<close>

theorem handshake_other_byte_counterexample:
  "send_file \<lparr>rx = [Some 0x00, Some 0x06, Some 0x06], tx = [], now = 0\<rparr> (Some [0x41]) CRC
     = (True, \<lparr>rx = [], tx = [0x01, 0x01, 0xFE, 0x41] @ replicate 127 0x1a @ [0x27, 0x04], now = 0\<rparr>)"
proof -
  let ?X = "0x41 # replicate 127 (0x1a::byte)"
  have w: "wait_initiate 0 \<lparr>rx = [Some 0x00, Some 0x06, Some 0x06], tx = [], now = 0\<rparr>
             = (Some [0x00], \<lparr>rx = [Some 0x06, Some 0x06], tx = [], now = 0\<rparr>)"
    using wait_initiate_byte [of "\<lparr>rx = [Some 0x00, Some 0x06, Some 0x06], tx = [], now = 0\<rparr>"
        0 "0x00" "[Some 0x06, Some 0x06]" 0]
    by simp
  have p: "pad_content [0x41] = ?X"
    by (simp add: pad_content_eq)
  have "[0 ..< (255::nat) div 128] = [0]"
    by (simp add: upt_conv_Cons)
  then have sp: "split_blocks ?X = [?X]"
    by (simp add: split_blocks_def range_step_def BLOCK_SIZE_def)
  have "sum_list (map uint ?X) = 3367"
    by (simp add: sum_list_replicate)
  then have c: "calculate_checksum ?X = 0x27"
    by (simp only: calculate_checksum_def and_FF_mod) simp
  have pk: "build_packet False 1 ?X = [0x01, 0x01, 0xFE] @ ?X @ [0x27]"
    by (simp only: build_packet_def c) (simp add: SOH_def byte_of_def and_FF_mod)
  have sb: "send_blocks False 1 [?X] \<lparr>rx = [Some 0x06, Some 0x06], tx = [], now = 0\<rparr>
              = (None, \<lparr>rx = [Some 0x06], tx = [0x01, 0x01, 0xFE] @ ?X @ [0x27], now = 0\<rparr>)"
    using send_attempts_ack [of 0 "\<lparr>rx = [Some 0x06, Some 0x06], tx = [], now = 0\<rparr>"
        "[Some 0x06]" False 1 ?X]
    by (simp add: RETRY_LIMIT_def pk)
  have eot: "send_eot 0 \<lparr>rx = [Some 0x06], tx = [0x01, 0x01, 0xFE] @ ?X @ [0x27], now = 0\<rparr>
              = (True, \<lparr>rx = [], tx = [0x01, 0x01, 0xFE] @ ?X @ [0x27] @ [0x04], now = 0\<rparr>)"
    by (subst send_eot.simps) (simp add: RETRY_LIMIT_def ser_read_one ser_write_def EOT_def ACK_def)
  show ?thesis
    by (simp add: send_file_def Let_def w p sp C_def sb eot [simplified] del: send_blocks.simps)
qed

end
